theory Spec2Isabelle
  imports Main "HOL-Library.AList" "HOL-Library.Word"
begin

section \<open>Session store (package main, \<open>Server.sessions\<close>)\<close>

text \<open>
  \<open>Server.sessions\<close> is a Go \<open>map[string]time.Time\<close>. An instant is modelled as an
  integer count of clock ticks; \<open>time.Time.After\<close> is the strict order on instants.
  The mutex \<open>s.mu\<close> makes every call atomic, so a call is a function from the map
  before to the result and the map after.
\<close>

type_synonym instant = int

type_synonym sessions = "string \<rightharpoonup> instant"

definition After :: "instant \<Rightarrow> instant \<Rightarrow> bool" where
  "After t u = (u < t)"

text \<open>
  \<^verbatim>\<open>
  expiry, ok := s.sessions[token]
  if !ok { return false }
  if time.Now().After(expiry) { delete(s.sessions, token); return false }
  return true
  \<close>
  The first argument is the value \<open>time.Now()\<close> returns during the call.
\<close>

definition validateToken :: "instant \<Rightarrow> string \<Rightarrow> sessions \<Rightarrow> bool \<times> sessions" where
  "validateToken now token s =
     (case s token of
        None \<Rightarrow> (False, s)
      | Some expiry \<Rightarrow>
          if After now expiry then (False, s(token := None))
          else (True, s))"

section \<open>HTTP header maps (\<open>net/http\<close>, \<open>net/textproto\<close>, \<open>strings\<close>)\<close>

text \<open>
  \<open>http.Header\<close> and \<open>url.Values\<close> are both \<open>map[string][]string\<close>. They are
  association lists here, so that \<open>range\<close> has an order to follow; Go leaves that order
  unspecified, and no theorem below depends on it beyond what is stated.
  Strings are byte strings. The library functions of this section are modelled on the
  ASCII range, which is where HTTP field names live: on a byte of 128 or more Go's
  \<open>strings.EqualFold\<close> decodes runes and folds them by Unicode tables, which is not
  modelled.
\<close>

type_synonym header = "(string \<times> string list) list"

definition ascii :: "string \<Rightarrow> bool" where
  "ascii s = (\<forall>c \<in> set s. (of_char c :: nat) < 128)"

text \<open>
  The ASCII path of \<open>strings.EqualFold\<close>: equal bytes match; otherwise the smaller of
  the two must be an upper-case letter and the larger its lower-case form
  (\<open>'A' <= sr && sr <= 'Z' && tr == sr+'a'-'A'\<close>); both strings must end together.
\<close>

fun EqualFold :: "string \<Rightarrow> string \<Rightarrow> bool" where
  "EqualFold [] [] = True"
| "EqualFold (sr # s) (tr # t) =
     (if tr = sr then EqualFold s t
      else let lo = (if (of_char tr :: nat) < of_char sr then tr else sr);
               hi = (if (of_char tr :: nat) < of_char sr then sr else tr)
           in if 65 \<le> (of_char lo :: nat) \<and> (of_char lo :: nat) \<le> 90
                 \<and> (of_char hi :: nat) = of_char lo + 32
              then EqualFold s t else False)"
| "EqualFold _ _ = False"

text \<open>
  \<open>textproto.CanonicalMIMEHeaderKey\<close>, which \<open>Header.Add\<close> and \<open>Header.Get\<close> apply to
  their key: a key with a byte that is not a field-name token byte is returned as it is;
  otherwise the first letter and every letter after a dash are made upper case and the
  other letters lower case.
\<close>

definition validHeaderFieldByte :: "char \<Rightarrow> bool" where
  "validHeaderFieldByte c =
     (let n = (of_char c :: nat)
      in (48 \<le> n \<and> n \<le> 57) \<or> (65 \<le> n \<and> n \<le> 90) \<or> (97 \<le> n \<and> n \<le> 122)
         \<or> n \<in> {33, 35, 36, 37, 38, 39, 42, 43, 45, 46, 94, 95, 96, 124, 126})"

fun canonicalLoop :: "bool \<Rightarrow> string \<Rightarrow> string" where
  "canonicalLoop upper [] = []"
| "canonicalLoop upper (c # a) =
     (let n = (of_char c :: nat);
          c' = (if upper \<and> 97 \<le> n \<and> n \<le> 122 then char_of (n - 32)
                else if \<not> upper \<and> 65 \<le> n \<and> n \<le> 90 then char_of (n + 32)
                else c)
      in c' # canonicalLoop (c' = CHR ''-'') a)"

definition CanonicalMIMEHeaderKey :: "string \<Rightarrow> string" where
  "CanonicalMIMEHeaderKey s =
     (if list_all validHeaderFieldByte s then canonicalLoop True s else s)"

text \<open>\<open>Header.Get\<close>: the first value stored under the canonical key, or the empty string.\<close>

definition Header_Get :: "header \<Rightarrow> string \<Rightarrow> string" where
  "Header_Get h key =
     (case map_of h (CanonicalMIMEHeaderKey key) of
        None \<Rightarrow> []
      | Some [] \<Rightarrow> []
      | Some (v # _) \<Rightarrow> v)"

text \<open>\<open>Header.Add\<close>: \<open>h[key] = append(h[key], value)\<close> under the canonical key.\<close>

definition Header_Add :: "string \<Rightarrow> string \<Rightarrow> header \<Rightarrow> header" where
  "Header_Add key v h =
     (let k = CanonicalMIMEHeaderKey key
      in AList.update k (case map_of h k of None \<Rightarrow> [v] | Some vs \<Rightarrow> vs @ [v]) h)"

text \<open>The values stored under a key, with a missing key read as no values.\<close>

definition values_of :: "header \<Rightarrow> string \<Rightarrow> string list" where
  "values_of h k = (case map_of h k of None \<Rightarrow> [] | Some vs \<Rightarrow> vs)"

section \<open>The core gateway (package main)\<close>

definition hopHeaders :: "string list" where
  "hopHeaders = [''Connection'', ''Proxy-Connection'', ''Keep-Alive'', ''Proxy-Authenticate'',
                 ''Proxy-Authorization'', ''Te'', ''Trailer'', ''Transfer-Encoding'', ''Upgrade'']"

text \<open>
  \<^verbatim>\<open>
  for key, values := range src {
      ignore := false
      for _, hop := range hopHeaders {
          if strings.EqualFold(key, hop) { ignore = true; break }
      }
      if ignore { continue }
      for _, v := range values { dst.Add(key, v) }
  }
  \<close>
\<close>

definition ignore_key :: "string \<Rightarrow> bool" where
  "ignore_key key = list_ex (EqualFold key) hopHeaders"

definition copyHeaders :: "header \<Rightarrow> header \<Rightarrow> header" where
  "copyHeaders dst src =
     fold (\<lambda>(key, vals) d. if ignore_key key then d else fold (Header_Add key) vals d) src dst"

text \<open>The spec's "compared case-insensitively", on ASCII: letters \<open>A\<close> to \<open>Z\<close> lowered.\<close>

definition toLowerASCII :: "char \<Rightarrow> char" where
  "toLowerASCII c =
     (let n = (of_char c :: nat) in if 65 \<le> n \<and> n \<le> 90 then char_of (n + 32) else c)"

subsection \<open>Loopback check (\<open>isLoopbackHost\<close>, with \<open>net.IP\<close>)\<close>

text \<open>
  \<open>net.IP\<close> is a byte slice: 4 bytes, or 16 bytes (which is what \<open>net.ParseIP\<close> returns,
  an IPv4 address in its IPv4-in-IPv6 form). \<open>net.ParseIP\<close> itself is a parameter of the
  model; \<open>To4\<close>, \<open>Equal\<close> and \<open>IsLoopback\<close> follow the library.
\<close>

type_synonym IP = "nat list"

definition IPv6loopback :: IP where
  "IPv6loopback = [0, 0, 0, 0, 0, 0, 0, 0, 0, 0, 0, 0, 0, 0, 0, 1]"

definition v4InV6Prefix :: IP where
  "v4InV6Prefix = [0, 0, 0, 0, 0, 0, 0, 0, 0, 0, 255, 255]"

definition To4 :: "IP \<Rightarrow> IP option" where
  "To4 ip =
     (if length ip = 4 then Some ip
      else if length ip = 16 \<and> take 10 ip = replicate 10 0 \<and> ip ! 10 = 255 \<and> ip ! 11 = 255
      then Some (drop 12 ip)
      else None)"

definition IP_Equal :: "IP \<Rightarrow> IP \<Rightarrow> bool" where
  "IP_Equal ip x =
     (if length ip = length x then ip = x
      else if length ip = 4 \<and> length x = 16 then take 12 x = v4InV6Prefix \<and> ip = drop 12 x
      else if length ip = 16 \<and> length x = 4 then take 12 ip = v4InV6Prefix \<and> drop 12 ip = x
      else False)"

definition IsLoopback :: "IP \<Rightarrow> bool" where
  "IsLoopback ip =
     (case To4 ip of
        Some ip4 \<Rightarrow> (case ip4 of b # _ \<Rightarrow> b = 127 | [] \<Rightarrow> False)
      | None \<Rightarrow> IP_Equal ip IPv6loopback)"

text \<open>
  \<^verbatim>\<open>
  if host == "localhost" { return true }
  ip := net.ParseIP(host)
  return ip != nil && ip.IsLoopback()
  \<close>
\<close>

definition isLoopbackHost :: "(string \<Rightarrow> IP option) \<Rightarrow> string \<Rightarrow> bool" where
  "isLoopbackHost ParseIP host =
     (if host = ''localhost'' then True
      else case ParseIP host of None \<Rightarrow> False | Some ip \<Rightarrow> IsLoopback ip)"

text \<open>
  The spec's loopback addresses, in its own words: an address of \<open>127.0.0.0/8\<close> (as 4
  bytes, or as 16 bytes in IPv4-in-IPv6 form) or \<open>::1\<close>.
\<close>

definition spec_loopback_ip :: "IP \<Rightarrow> bool" where
  "spec_loopback_ip ip =
     ((length ip = 4 \<and> ip ! 0 = 127)
      \<or> (length ip = 16 \<and> take 12 ip = [0, 0, 0, 0, 0, 0, 0, 0, 0, 0, 255, 255] \<and> ip ! 12 = 127)
      \<or> ip = [0, 0, 0, 0, 0, 0, 0, 0, 0, 0, 0, 0, 0, 0, 0, 1])"

subsection \<open>\<open>handleCoreProxy\<close>\<close>

text \<open>
  The functions of \<open>net/url\<close> and \<open>net\<close> that the handler calls are parameters: the
  theorems hold whatever they compute. \<open>'u\<close> is the type of a parsed \<open>*url.URL\<close>.
\<close>

record rel_url =
  Path :: string
  RawQuery :: string

record 'u netlib =
  url_Parse :: "string \<Rightarrow> 'u option"
  url_Hostname :: "'u \<Rightarrow> string"
  url_ResolveReference :: "'u \<Rightarrow> rel_url \<Rightarrow> 'u"
  values_Encode :: "header \<Rightarrow> string"
  net_ParseIP :: "string \<Rightarrow> IP option"

text \<open>
  What the handler reads of the inbound request: \<open>r.Header\<close>, the parsed query
  \<open>r.URL.Query()\<close> (a fresh \<open>url.Values\<close> on every call, so deleting from one copy does
  not change the next), the route parameter \<open>chi.URLParam(r, "*")\<close> and
  \<open>websocket.IsWebSocketUpgrade(r)\<close>.
\<close>

record request =
  Header :: header
  Query :: header
  URLParam_star :: string
  IsWebSocketUpgrade :: bool

text \<open>\<open>url.Values.Get\<close> (no canonical form of the key) and \<open>url.Values.Del\<close>.\<close>

definition Values_Get :: "header \<Rightarrow> string \<Rightarrow> string" where
  "Values_Get v key = (case map_of v key of None \<Rightarrow> [] | Some [] \<Rightarrow> [] | Some (x # _) \<Rightarrow> x)"

definition Values_Del :: "string \<Rightarrow> header \<Rightarrow> header" where
  "Values_Del key v = AList.delete key v"

text \<open>
  How the handler ends: \<open>http.Error(w, msg, status)\<close> and return, or a call of
  \<open>proxyCoreHTTP\<close> or \<open>proxyCoreWebsocket\<close> with the target URL and the bearer. Only the
  last two build a request or dial.
\<close>

datatype 'u outcome =
    HttpError nat string
  | ProxyCoreHTTP 'u string
  | ProxyCoreWebsocket 'u string

definition StatusBadRequest :: nat where "StatusBadRequest = 400"
definition StatusForbidden :: nat where "StatusForbidden = 403"

definition declaredBase :: "request \<Rightarrow> string" where
  "declaredBase r =
     (let coreBase = Header_Get (Header r) ''X-Core-Base''
      in if coreBase = [] then Values_Get (Query r) ''coreBase'' else coreBase)"

definition forwardPath :: "request \<Rightarrow> string" where
  "forwardPath r =
     (let pathParam = URLParam_star r
      in if take 1 pathParam = ''/'' then pathParam else ''/'' @ pathParam)"

definition forwardQuery :: "request \<Rightarrow> header" where
  "forwardQuery r = Values_Del ''token'' (Values_Del ''coreBearer'' (Values_Del ''coreBase'' (Query r)))"

definition upstreamBearer :: "request \<Rightarrow> string" where
  "upstreamBearer r =
     (let bearer = Header_Get (Header r) ''X-Core-Bearer''
      in if bearer = [] then Values_Get (Query r) ''coreBearer'' else bearer)"

definition handleCoreProxy :: "'u netlib \<Rightarrow> request \<Rightarrow> 'u outcome" where
  "handleCoreProxy lib r =
     (let coreBase = declaredBase r
      in if coreBase = [] then HttpError StatusBadRequest ''missing core base''
         else case url_Parse lib coreBase of
                None \<Rightarrow> HttpError StatusBadRequest ''invalid core base''
              | Some baseURL \<Rightarrow>
                  if \<not> isLoopbackHost (net_ParseIP lib) (url_Hostname lib baseURL)
                  then HttpError StatusForbidden ''core base must be loopback''
                  else let rel = \<lparr>Path = forwardPath r,
                                    RawQuery = values_Encode lib (forwardQuery r)\<rparr>;
                           targetURL = url_ResolveReference lib baseURL rel;
                           bearer = upstreamBearer r
                       in if IsWebSocketUpgrade r then ProxyCoreWebsocket targetURL bearer
                          else ProxyCoreHTTP targetURL bearer)"

text \<open>A client-error rejection, and a request handed on to one of the two forwarders.\<close>

fun rejected_client_error :: "'u outcome \<Rightarrow> bool" where
  "rejected_client_error (HttpError status msg) = (400 \<le> status \<and> status < 500)"
| "rejected_client_error _ = False"

fun forwarded_to :: "'u outcome \<Rightarrow> 'u option" where
  "forwarded_to (HttpError status msg) = None"
| "forwarded_to (ProxyCoreHTTP target bearer) = Some target"
| "forwarded_to (ProxyCoreWebsocket target bearer) = Some target"

subsection \<open>A concrete instance for the spec's SSRF example\<close>

text \<open>
  The theorems about \<open>handleCoreProxy\<close> hold for every behaviour of the library. To apply
  them to the two base URLs of the spec's example, the library is instantiated by a table
  that gives what \<open>net/url\<close> and \<open>net\<close> answer on these inputs: a parsed URL is the
  tuple (scheme, host with port, path, raw query).
\<close>

type_synonym example_url = "string \<times> string \<times> string \<times> string"

definition example_lib :: "example_url netlib" where
  "example_lib =
     \<lparr>url_Parse = (\<lambda>s. if s = ''http://127.0.0.1:20123''
                         then Some (''http'', ''127.0.0.1:20123'', [], [])
                         else if s = ''http://example.com:1234''
                         then Some (''http'', ''example.com:1234'', [], [])
                         else None),
      url_Hostname = (\<lambda>(scheme, host, path, query). takeWhile (\<lambda>c. c \<noteq> CHR '':'') host),
      url_ResolveReference = (\<lambda>(scheme, host, path, query) rel. (scheme, host, Path rel, RawQuery rel)),
      values_Encode = (\<lambda>v. concat (map (\<lambda>(k, vs). concat (map (\<lambda>x. k @ ''='' @ x @ ''&'') vs)) v)),
      net_ParseIP = (\<lambda>h. if h = ''127.0.0.1''
                          then Some [0, 0, 0, 0, 0, 0, 0, 0, 0, 0, 255, 255, 127, 0, 0, 1]
                          else None)\<rparr>"

definition example_request :: "string \<Rightarrow> request" where
  "example_request base =
     \<lparr>Header = [(''X-Core-Base'', [base]), (''Accept'', [''*/*''])],
      Query = [(''token'', [''5f2a'']), (''level'', [''info'']), (''coreBearer'', [''s3cret''])],
      URLParam_star = ''logs'',
      IsWebSocketUpgrade = False\<rparr>"

section \<open>The event bus (package eventbus)\<close>

subsection \<open>Clients and their outbound queue\<close>

text \<open>
  Of a \<open>Client\<close> the bus touches two channels: \<open>send\<close>, buffered with capacity 64, and
  \<open>closed\<close>, which is closed when the connection shuts down. A client is identified by
  its address (a number); \<open>clients\<close> below maps addresses to the state of these channels.
  \<open>send_closed\<close> records that \<open>close(c.send)\<close> has run (the last step of \<open>Client.close\<close>).
\<close>

record client =
  send :: "string list"
  send_closed :: bool
  closed :: bool

definition send_capacity :: nat where
  "send_capacity = 64"

definition newClient :: client where
  "newClient = \<lparr>send = [], send_closed = False, closed = False\<rparr>"

text \<open>
  How a call can fail to return normally: it waits (no case of the \<open>select\<close> is ready,
  and only another goroutine can make one ready), or it panics by sending on a closed
  channel.
\<close>

datatype fault = Blocked | SendOnClosedChannel

text \<open>
  \<^verbatim>\<open>
  select {
  case c.send <- payload:
  case <-c.closed:
  }
  \<close>
  The send case is ready when the buffer has room (or when \<open>send\<close> is closed, and then
  it panics); the receive case is ready when \<open>closed\<close> is closed. When both are ready Go
  chooses one at random: \<open>pick\<close> is that choice (true for the send case). When neither is
  ready the call waits.
\<close>

definition queue :: "bool \<Rightarrow> string \<Rightarrow> client \<Rightarrow> fault option \<times> client" where
  "queue pick payload c =
     (let sendReady = (send_closed c \<or> length (send c) < send_capacity);
          closedReady = closed c
      in if sendReady \<and> (\<not> closedReady \<or> pick)
         then (if send_closed c then (Some SendOnClosedChannel, c)
               else (None, c\<lparr>send := send c @ [payload]\<rparr>))
         else if closedReady then (None, c)
         else (Some Blocked, c))"

subsection \<open>The bus\<close>

text \<open>
  \<open>subscribers\<close> is \<open>map[string]map[*Client]struct{}\<close>: the inner set is a list of client
  addresses without repetition. \<open>handlers\<close> is \<open>map[string]map[int]Handler\<close>: the inner map
  is an association list. The lists give \<open>range\<close> an order; Go's is unspecified.
  \<open>nextHandlerID\<close> is a Go \<open>int\<close>, 64 bits wide, where \<open>++\<close> wraps around.
  A \<open>Handler\<close> is a callback; \<open>'h\<close> is the type of callbacks and an invocation
  \<open>handler(payload)\<close> is recorded, in order, in \<open>calls\<close>. The state holds the fields of the
  \<open>Bus\<close>, the client objects, and that record of invocations.
\<close>

type_synonym handler_id = "64 word"

record ('h, 'p) world =
  subscribers :: "string \<rightharpoonup> nat list"
  handlers :: "string \<rightharpoonup> (handler_id \<times> 'h) list"
  nextHandlerID :: handler_id
  clients :: "nat \<Rightarrow> client"
  calls :: "('h \<times> 'p list) list"

record 'p wsMessage =
  Action :: string
  Event :: string
  Payload :: "'p list"

text \<open>\<open>New()\<close>: both registries empty, the counter at its zero value.\<close>

definition New :: "('h, 'p) world" where
  "New = \<lparr>subscribers = Map.empty, handlers = Map.empty, nextHandlerID = 0,
          clients = (\<lambda>_. newClient), calls = []\<rparr>"

text \<open>
  \<^verbatim>\<open>
  for client := range b.subscribers[event] { client.queue(data) }
  \<close>
  The loop stops where a \<open>queue\<close> call does not return; the clients served before that
  have the message.
\<close>

fun queue_all :: "(nat \<Rightarrow> bool) \<Rightarrow> string \<Rightarrow> nat list \<Rightarrow> (nat \<Rightarrow> client) \<Rightarrow> fault option \<times> (nat \<Rightarrow> client)" where
  "queue_all pick data [] cs = (None, cs)"
| "queue_all pick data (c # rest) cs =
     (case queue (pick c) data (cs c) of
        (None, c') \<Rightarrow> queue_all pick data rest (cs(c := c'))
      | (Some f, c') \<Rightarrow> (Some f, cs))"

text \<open>
  \<^verbatim>\<open>
  data, err := json.Marshal(wsMessage{Event: event, Payload: payload})
  if err != nil { return }
  b.mu.RLock()
  defer b.mu.RUnlock()
  for client := range b.subscribers[event] { client.queue(data) }
  \<close>
  \<open>json.Marshal\<close> is a parameter: it gives the bytes, or \<open>None\<close> for an error.
\<close>

definition Emit ::
  "('p wsMessage \<Rightarrow> string option) \<Rightarrow> (nat \<Rightarrow> bool) \<Rightarrow> string \<Rightarrow> 'p list \<Rightarrow> ('h, 'p) world
     \<Rightarrow> fault option \<times> ('h, 'p) world" where
  "Emit Marshal pick event payload b =
     (case Marshal \<lparr>Action = [], Event = event, Payload = payload\<rparr> of
        None \<Rightarrow> (None, b)
      | Some data \<Rightarrow>
          (let subs = (case subscribers b event of None \<Rightarrow> [] | Some subs \<Rightarrow> subs);
               (f, cs) = queue_all pick data subs (clients b)
           in (f, b\<lparr>clients := cs\<rparr>)))"

text \<open>
  \<^verbatim>\<open>
  if _, ok := b.subscribers[event]; !ok {
      b.subscribers[event] = make(map[*Client]struct{})
  }
  b.subscribers[event][client] = struct{}{}
  \<close>
\<close>

definition set_add :: "'a \<Rightarrow> 'a list \<Rightarrow> 'a list" where
  "set_add x xs = (if x \<in> set xs then xs else xs @ [x])"

definition Subscribe :: "string \<Rightarrow> nat \<Rightarrow> ('h, 'p) world \<Rightarrow> ('h, 'p) world" where
  "Subscribe event client b =
     (let subs = (case subscribers b event of None \<Rightarrow> [] | Some subs \<Rightarrow> subs)
      in b\<lparr>subscribers := (subscribers b)(event \<mapsto> set_add client subs)\<rparr>)"

text \<open>
  \<^verbatim>\<open>
  if subs, ok := b.subscribers[event]; ok {
      delete(subs, client)
      if len(subs) == 0 { delete(b.subscribers, event) }
  }
  \<close>
\<close>

definition Unsubscribe :: "string \<Rightarrow> nat \<Rightarrow> ('h, 'p) world \<Rightarrow> ('h, 'p) world" where
  "Unsubscribe event client b =
     (case subscribers b event of
        None \<Rightarrow> b
      | Some subs \<Rightarrow>
          (let subs' = removeAll client subs
           in if length subs' = 0 then b\<lparr>subscribers := (subscribers b)(event := None)\<rparr>
              else b\<lparr>subscribers := (subscribers b)(event \<mapsto> subs')\<rparr>))"

text \<open>
  \<^verbatim>\<open>
  for event, subs := range b.subscribers {
      delete(subs, client)
      if len(subs) == 0 { delete(b.subscribers, event) }
  }
  \<close>
  Every entry is treated alike and on its own, so the loop is written entry by entry.
\<close>

definition removeClient :: "nat \<Rightarrow> ('h, 'p) world \<Rightarrow> ('h, 'p) world" where
  "removeClient client b =
     b\<lparr>subscribers :=
         (\<lambda>event. case subscribers b event of
                     None \<Rightarrow> None
                   | Some subs \<Rightarrow>
                       (let subs' = removeAll client subs
                        in if length subs' = 0 then None else Some subs'))\<rparr>"

text \<open>
  \<^verbatim>\<open>
  b.nextHandlerID++
  id := b.nextHandlerID
  if _, ok := b.handlers[event]; !ok { b.handlers[event] = make(map[int]Handler) }
  b.handlers[event][id] = handler
  return func() { ... }
  \<close>
  The returned closure captures \<open>event\<close> and \<open>id\<close> (\<open>hid\<close> below); it is represented by
  these two values,
  and \<open>call_cancel\<close> is its body:
  \<^verbatim>\<open>
  if handlers, ok := b.handlers[event]; ok {
      delete(handlers, id)
      if len(handlers) == 0 { delete(b.handlers, event) }
  }
  \<close>
\<close>

datatype cancelFunc = CancelFunc string handler_id

definition On :: "string \<Rightarrow> 'h \<Rightarrow> ('h, 'p) world \<Rightarrow> ('h, 'p) world \<times> cancelFunc" where
  "On event handler b =
     (let hid = nextHandlerID b + 1;
          hs = (case handlers b event of None \<Rightarrow> [] | Some hs \<Rightarrow> hs)
      in (b\<lparr>nextHandlerID := hid, handlers := (handlers b)(event \<mapsto> AList.update hid handler hs)\<rparr>,
          CancelFunc event hid))"

fun call_cancel :: "cancelFunc \<Rightarrow> ('h, 'p) world \<Rightarrow> ('h, 'p) world" where
  "call_cancel (CancelFunc event hid) b =
     (case handlers b event of
        None \<Rightarrow> b
      | Some hs \<Rightarrow>
          (let hs' = AList.delete hid hs
           in if length hs' = 0 then b\<lparr>handlers := (handlers b)(event := None)\<rparr>
              else b\<lparr>handlers := (handlers b)(event \<mapsto> hs')\<rparr>))"

text \<open>
  \<^verbatim>\<open>
  for _, handler := range b.handlers[event] { handler(payload) }
  \<close>
\<close>

definition handlers_of :: "('h, 'p) world \<Rightarrow> string \<Rightarrow> (handler_id \<times> 'h) list" where
  "handlers_of b event = (case handlers b event of None \<Rightarrow> [] | Some hs \<Rightarrow> hs)"

definition emitFromClient :: "string \<Rightarrow> 'p list \<Rightarrow> ('h, 'p) world \<Rightarrow> ('h, 'p) world" where
  "emitFromClient event payload b =
     b\<lparr>calls := calls b @ map (\<lambda>(hid, handler). (handler, payload)) (handlers_of b event)\<rparr>"

subsection \<open>Histories of bus operations\<close>

text \<open>
  A history is a list of calls on the bus, run from left to right. \<open>OpClients\<close> stands
  for whatever the connections' own goroutines do to the client objects in between (the
  writer taking messages off \<open>send\<close>, \<open>Client.close\<close> closing the channels).
\<close>

datatype ('h, 'p) op =
    OpSubscribe string nat
  | OpUnsubscribe string nat
  | OpRemoveClient nat
  | OpEmit "nat \<Rightarrow> bool" string "'p list"
  | OpOn string 'h
  | OpCancel cancelFunc
  | OpEmitFromClient string "'p list"
  | OpClients "nat \<Rightarrow> client"

fun apply_op :: "('p wsMessage \<Rightarrow> string option) \<Rightarrow> ('h, 'p) op \<Rightarrow> ('h, 'p) world \<Rightarrow> ('h, 'p) world" where
  "apply_op Marshal (OpSubscribe event client) b = Subscribe event client b"
| "apply_op Marshal (OpUnsubscribe event client) b = Unsubscribe event client b"
| "apply_op Marshal (OpRemoveClient client) b = removeClient client b"
| "apply_op Marshal (OpEmit pick event payload) b = snd (Emit Marshal pick event payload b)"
| "apply_op Marshal (OpOn event handler) b = fst (On event handler b)"
| "apply_op Marshal (OpCancel cancel) b = call_cancel cancel b"
| "apply_op Marshal (OpEmitFromClient event payload) b = emitFromClient event payload b"
| "apply_op Marshal (OpClients cs) b = b\<lparr>clients := cs\<rparr>"

definition run :: "('p wsMessage \<Rightarrow> string option) \<Rightarrow> ('h, 'p) op list \<Rightarrow> ('h, 'p) world \<Rightarrow> ('h, 'p) world" where
  "run Marshal ops b = fold (apply_op Marshal) ops b"

text \<open>The number of \<open>On\<close> calls in a history.\<close>

fun is_On :: "('h, 'p) op \<Rightarrow> bool" where
  "is_On (OpOn event handler) = True"
| "is_On _ = False"

definition count_On :: "('h, 'p) op list \<Rightarrow> nat" where
  "count_On ops = length (filter is_On ops)"

text \<open>
  The invariant of the handler registry after \<open>n\<close> registrations, fewer than \<open>2^64\<close>: the
  counter stands at \<open>n\<close>, no event has an empty handler map, and every registered id is
  the \<open>j\<close>-th one issued for some \<open>j\<close> from 1 to \<open>n\<close> outside the set \<open>X\<close> (the ids known to
  have been cancelled).
\<close>

definition handler_ids_inv :: "nat \<Rightarrow> nat set \<Rightarrow> ('h, 'p) world \<Rightarrow> bool" where
  "handler_ids_inv n X b =
     (n < 2 ^ 64 \<and> nextHandlerID b = of_nat n
      \<and> (\<forall>event hs. handlers b event = Some hs \<longrightarrow>
            hs \<noteq> [] \<and> (\<forall>hid \<in> fst ` set hs. \<exists>j. 1 \<le> j \<and> j \<le> n \<and> j \<notin> X \<and> hid = of_nat j)))"

subsection \<open>Lock and queue events of \<open>Emit\<close>\<close>




subsection \<open>A concrete instance of \<open>json.Marshal\<close>\<close>

text \<open>
  The theorems about \<open>Emit\<close> hold for every behaviour of \<open>json.Marshal\<close>. To apply them,
  payload items are Go values of three kinds, and \<open>json.Marshal\<close> is instantiated by a
  table with what it answers on one message: the event \<open>tick\<close> with the payload \<open>[7]\<close>.
  On a payload that holds a channel \<open>json.Marshal\<close> returns an error
  (\<open>json: unsupported type\<close>), which is the table's \<open>None\<close>.
\<close>

datatype go_value = GoInt int | GoString string | GoChan

definition example_Marshal :: "go_value wsMessage \<Rightarrow> string option" where
  \<open>example_Marshal m =
     (if m = \<lparr>Action = [], Event = ''tick'', Payload = [GoInt 7]\<rparr>
      then Some ''{"event":"tick","payload":[7]}''
      else None)\<close>

text \<open>A client whose outbound queue is filled to capacity.\<close>

definition stalled :: "bool \<Rightarrow> client" where
  "stalled is_closed = \<lparr>send = replicate 64 ''m'', send_closed = False, closed = is_closed\<rparr>"

section \<open>The browser-side multiplexer (\<open>frontend/src/bridge/events.ts\<close>)\<close>




















subsection \<open>Histories of the multiplexer\<close>




section \<open>Theorems: session store\<close>

lemma validateToken_result:
  "fst (validateToken now t s) = (case s t of None \<Rightarrow> False | Some e \<Rightarrow> now \<le> e)"
  by (simp add: validateToken_def After_def split: option.splits)

lemma validateToken_others:
  "t' \<noteq> t \<Longrightarrow> snd (validateToken now t s) t' = s t'"
  by (simp add: validateToken_def split: option.splits)

lemma validateToken_expired:
  "s t = Some e \<Longrightarrow> e < now \<Longrightarrow> validateToken now t s = (False, s(t := None))"
  by (simp add: validateToken_def After_def)

lemma validateToken_absent:
  "s t = None \<Longrightarrow> validateToken now t s = (False, s)"
  by (simp add: validateToken_def)

text \<open>
  C3, as stated, at the boundary instant. The claim makes a token valid only while
  \<open>now < expiry\<close>; the code rejects only when \<open>now\<close> is strictly after the expiry, so a
  token stored with expiry 10 still validates at instant 10.
\<close>

theorem C3_boundary_counterexample:
  "(Map.empty(''tok'' \<mapsto> (10::int))) ''tok'' = Some 10
   \<and> \<not> ((10::int) < 10)
   \<and> validateToken 10 ''tok'' (Map.empty(''tok'' \<mapsto> 10)) = (True, Map.empty(''tok'' \<mapsto> 10))"
  by (simp add: validateToken_def After_def)

text \<open>
  C3 (amended). \<open>validateToken\<close> returns true exactly when the token is in the store and
  the current instant is not after its expiry (\<open>now \<le> expiry\<close>). When the token is
  present and \<open>now\<close> is after the expiry, the call returns false and removes the entry, so
  that a repeated validation (at any later reading \<open>now'\<close> of the clock) finds it absent,
  returns false and changes nothing. Entries of other tokens are never changed.
\<close>

theorem C3_validateToken_lazy_expiry:
  "(fst (validateToken now t s) \<longleftrightarrow> (\<exists>e. s t = Some e \<and> now \<le> e))
   \<and> (\<forall>e. s t = Some e \<and> e < now \<longrightarrow>
         fst (validateToken now t s) = False
         \<and> snd (validateToken now t s) t = None
         \<and> validateToken now' t (snd (validateToken now t s)) = (False, snd (validateToken now t s)))
   \<and> (\<forall>t'. t' \<noteq> t \<longrightarrow> snd (validateToken now t s) t' = s t')"
proof (intro conjI allI impI)
  show "fst (validateToken now t s) \<longleftrightarrow> (\<exists>e. s t = Some e \<and> now \<le> e)"
    by (simp add: validateToken_result split: option.splits)
next
  fix e assume h: "s t = Some e \<and> e < now"
  then have v: "validateToken now t s = (False, s(t := None))"
    by (simp add: validateToken_expired)
  show "fst (validateToken now t s) = False" by (simp add: v)
  show "snd (validateToken now t s) t = None" by (simp add: v)
  show "validateToken now' t (snd (validateToken now t s)) = (False, snd (validateToken now t s))"
    by (simp add: v validateToken_absent)
next
  fix t' assume "t' \<noteq> t"
  then show "snd (validateToken now t s) t' = s t'" by (rule validateToken_others)
qed

theorem C3_validateToken_lazy_expiry_witness:
  "(Map.empty(''a'' \<mapsto> (5::int), ''b'' \<mapsto> 99)) ''a'' = Some 5 \<and> (5::int) < 7
   \<and> ''b'' \<noteq> ''a''
   \<and> fst (validateToken 7 ''a'' (Map.empty(''a'' \<mapsto> 5, ''b'' \<mapsto> 99))) = False
   \<and> snd (validateToken 7 ''a'' (Map.empty(''a'' \<mapsto> 5, ''b'' \<mapsto> 99))) ''a'' = None
   \<and> validateToken 8 ''a'' (snd (validateToken 7 ''a'' (Map.empty(''a'' \<mapsto> 5, ''b'' \<mapsto> 99))))
       = (False, snd (validateToken 7 ''a'' (Map.empty(''a'' \<mapsto> 5, ''b'' \<mapsto> 99))))
   \<and> snd (validateToken 7 ''a'' (Map.empty(''a'' \<mapsto> 5, ''b'' \<mapsto> 99))) ''b'' = Some 99"
proof -
  let ?s = "Map.empty(''a'' \<mapsto> (5::int), ''b'' \<mapsto> 99)"
  have h: "?s ''a'' = Some 5 \<and> (5::int) < 7" by simp
  have n: "''b'' \<noteq> ''a''" by simp
  from C3_validateToken_lazy_expiry [of 7 "''a''" ?s 8] h n
  show ?thesis by simp
qed

section \<open>Theorems: header copying\<close>

lemma of_char_toLowerASCII:
  "(of_char (toLowerASCII c) :: nat) =
     (if 65 \<le> (of_char c :: nat) \<and> (of_char c :: nat) \<le> 90 then of_char c + 32 else of_char c)"
  by (simp add: toLowerASCII_def Let_def)

lemma toLowerASCII_eq_iff:
  "toLowerASCII a = toLowerASCII b \<longleftrightarrow>
     (a = b
      \<or> (65 \<le> (of_char a :: nat) \<and> (of_char a :: nat) \<le> 90 \<and> (of_char b :: nat) = of_char a + 32)
      \<or> (65 \<le> (of_char b :: nat) \<and> (of_char b :: nat) \<le> 90 \<and> (of_char a :: nat) = of_char b + 32))"
proof -
  have "toLowerASCII a = toLowerASCII b
          \<longleftrightarrow> (of_char (toLowerASCII a) :: nat) = of_char (toLowerASCII b)"
    by simp
  also have "\<dots> \<longleftrightarrow>
     (a = b
      \<or> (65 \<le> (of_char a :: nat) \<and> (of_char a :: nat) \<le> 90 \<and> (of_char b :: nat) = of_char a + 32)
      \<or> (65 \<le> (of_char b :: nat) \<and> (of_char b :: nat) \<le> 90 \<and> (of_char a :: nat) = of_char b + 32))"
    unfolding of_char_toLowerASCII by (auto simp: of_char_eq_iff)
  finally show ?thesis .
qed

lemma EqualFold_iff: "EqualFold s t \<longleftrightarrow> map toLowerASCII s = map toLowerASCII t"
proof (induction s t rule: EqualFold.induct)
  case 1
  show ?case by simp
next
  case (2 sr s tr t)
  show ?case
  proof (cases "tr = sr")
    case True
    with 2 show ?thesis by simp
  next
    case False
    then have ne: "(of_char tr :: nat) \<noteq> of_char sr" by simp
    show ?thesis
    proof (cases "(of_char tr :: nat) < of_char sr")
      case True
      with 2 \<open>tr \<noteq> sr\<close> show ?thesis by (auto simp: Let_def toLowerASCII_eq_iff)
    next
      case False
      with 2 ne \<open>tr \<noteq> sr\<close> show ?thesis by (auto simp: Let_def toLowerASCII_eq_iff)
    qed
  qed
qed simp_all

lemma ignore_key_iff:
  "ignore_key key \<longleftrightarrow>
     map toLowerASCII key \<in> {''connection'', ''proxy-connection'', ''keep-alive'',
        ''proxy-authenticate'', ''proxy-authorization'', ''te'', ''trailer'',
        ''transfer-encoding'', ''upgrade''}"
proof -
  have "map (map toLowerASCII) hopHeaders = [''connection'', ''proxy-connection'',
        ''keep-alive'', ''proxy-authenticate'', ''proxy-authorization'', ''te'', ''trailer'',
        ''transfer-encoding'', ''upgrade'']"
    by code_simp
  then have "set (map (map toLowerASCII) hopHeaders) = set [''connection'',
        ''proxy-connection'', ''keep-alive'', ''proxy-authenticate'', ''proxy-authorization'',
        ''te'', ''trailer'', ''transfer-encoding'', ''upgrade'']"
    by (rule arg_cong)
  then have l: "map toLowerASCII ` set hopHeaders = {''connection'', ''proxy-connection'',
        ''keep-alive'', ''proxy-authenticate'', ''proxy-authorization'', ''te'', ''trailer'',
        ''transfer-encoding'', ''upgrade''}"
    by simp
  have "ignore_key key \<longleftrightarrow> map toLowerASCII key \<in> map toLowerASCII ` set hopHeaders"
    by (auto simp: ignore_key_def list_ex_iff EqualFold_iff)
  then show ?thesis unfolding l .
qed

lemma values_of_Header_Add:
  "values_of (Header_Add key v h) k =
     (if CanonicalMIMEHeaderKey key = k then values_of h k @ [v] else values_of h k)"
  by (simp add: values_of_def Header_Add_def Let_def update_conv' split: option.splits)

lemma values_of_fold_Add:
  "values_of (fold (Header_Add key) vals d) k =
     values_of d k @ (if CanonicalMIMEHeaderKey key = k then vals else [])"
  by (induction vals arbitrary: d) (simp_all add: values_of_Header_Add)

lemma values_of_copyHeaders:
  "values_of (copyHeaders dst src) k =
     values_of dst k @
     concat (map snd (filter (\<lambda>(key, vals). \<not> ignore_key key \<and> CanonicalMIMEHeaderKey key = k) src))"
  unfolding copyHeaders_def
proof (induction src arbitrary: dst)
  case Nil
  show ?case by simp
next
  case (Cons kv src)
  obtain key vals where kv: "kv = (key, vals)" by (cases kv)
  show ?case
    by (cases "ignore_key key") (simp_all add: kv Cons.IH values_of_fold_Add)
qed

text \<open>
  C5, as stated: a header whose name begins with \<open>Proxy-\<close> but is not one of the three
  \<open>Proxy-\<close> names of \<open>hopHeaders\<close> is copied.
\<close>

theorem C5_proxy_prefix_counterexample:
  "take 6 ''Proxy-Status'' = ''Proxy-''
   \<and> copyHeaders [] [(''Proxy-Status'', [''ok''])] = [(''Proxy-Status'', [''ok''])]"
  by code_simp

text \<open>
  C5 (amended). In a header copy (the same \<open>copyHeaders\<close> serves both directions), a
  header is left out exactly when its name is, compared case-insensitively, one of
  Connection, Proxy-Connection, Keep-Alive, Proxy-Authenticate, Proxy-Authorization, TE,
  Trailer, Transfer-Encoding, Upgrade. Every other header, also one with another name
  beginning with \<open>Proxy-\<close>, is copied with all of its values: under every name \<open>k\<close> the
  destination holds afterwards what it held before, followed by the values of the source
  headers that are not left out and whose canonical name is \<open>k\<close>. Field names are ASCII.
\<close>

theorem C5_copyHeaders_hop_by_hop:
  assumes "\<forall>key \<in> fst ` set src. ascii key"
  shows "values_of (copyHeaders dst src) k =
           values_of dst k @
           concat (map snd (filter (\<lambda>(key, vals).
              map toLowerASCII key \<notin> {''connection'', ''proxy-connection'', ''keep-alive'',
                 ''proxy-authenticate'', ''proxy-authorization'', ''te'', ''trailer'',
                 ''transfer-encoding'', ''upgrade''}
              \<and> CanonicalMIMEHeaderKey key = k) src))"
  by (simp only: values_of_copyHeaders ignore_key_iff)

theorem C5_copyHeaders_hop_by_hop_witness:
  "ascii ''x-tag'' \<and> ascii ''keep-alive'' \<and> ascii ''X-Tag''
   \<and> values_of (copyHeaders [(''X-Tag'', [''z''])]
        [(''x-tag'', [''a'', ''b'']), (''keep-alive'', [''timeout=5'']), (''X-Tag'', [''c''])])
        ''X-Tag''
      = [''z'', ''a'', ''b'', ''c'']
   \<and> values_of (copyHeaders [(''X-Tag'', [''z''])]
        [(''x-tag'', [''a'', ''b'']), (''keep-alive'', [''timeout=5'']), (''X-Tag'', [''c''])])
        ''Keep-Alive''
      = []"
proof -
  let ?src = "[(''x-tag'', [''a'', ''b'']), (''keep-alive'', [''timeout=5'']), (''X-Tag'', [''c''])]"
  have h: "\<forall>key \<in> fst ` set ?src. ascii key"
    by (simp add: ascii_def)
  have c: "map (\<lambda>(key, vals). (map toLowerASCII key, CanonicalMIMEHeaderKey key)) ?src =
     [(''x-tag'', ''X-Tag''), (''keep-alive'', ''Keep-Alive''), (''x-tag'', ''X-Tag'')]"
    by code_simp
  have v: "values_of [(''X-Tag'', [''z''])] ''X-Tag'' = [''z'']"
          "values_of [(''X-Tag'', [''z''])] ''Keep-Alive'' = []"
    by (simp_all add: values_of_def)
  from c have c1:
     "map toLowerASCII ''x-tag'' = ''x-tag''" "CanonicalMIMEHeaderKey ''x-tag'' = ''X-Tag''"
     "map toLowerASCII ''keep-alive'' = ''keep-alive''"
     "CanonicalMIMEHeaderKey ''keep-alive'' = ''Keep-Alive''"
     "map toLowerASCII ''X-Tag'' = ''x-tag''" "CanonicalMIMEHeaderKey ''X-Tag'' = ''X-Tag''"
    by simp_all
  show ?thesis
    using C5_copyHeaders_hop_by_hop [OF h, of "[(''X-Tag'', [''z''])]" "''X-Tag''"]
          C5_copyHeaders_hop_by_hop [OF h, of "[(''X-Tag'', [''z''])]" "''Keep-Alive''"] h
    by (simp add: c1 v del: list.map) simp
qed


section \<open>Theorems: the core gateway\<close>

lemma len4: "length (ip :: nat list) = 4 \<Longrightarrow> \<exists>a b c d. ip = [a, b, c, d]"
  by (auto simp: length_Suc_conv numeral_eq_Suc)

lemma len16:
  assumes "length (ip :: nat list) = 16"
  obtains a b c d e f g h i j k l m n p q
    where "ip = [a, b, c, d, e, f, g, h, i, j, k, l, m, n, p, q]"
  using assms by (auto simp: length_Suc_conv numeral_eq_Suc)

lemma IsLoopback_spec: "IsLoopback ip = spec_loopback_ip ip"
proof (cases "length ip = 4")
  case True
  then obtain a b c d where "ip = [a, b, c, d]"
    using len4 by blast
  then show ?thesis
    by (simp add: IsLoopback_def To4_def spec_loopback_ip_def)
next
  case n4: False
  show ?thesis
  proof (cases "length ip = 16")
    case False
    with n4 show ?thesis
      by (auto simp: IsLoopback_def To4_def spec_loopback_ip_def IP_Equal_def IPv6loopback_def)
  next
    case True
    then obtain a b c d e f g h i j k l m n p q
      where "ip = [a, b, c, d, e, f, g, h, i, j, k, l, m, n, p, q]"
      by (rule len16)
    then show ?thesis
      by (auto simp: IsLoopback_def To4_def spec_loopback_ip_def IP_Equal_def IPv6loopback_def
            numeral_eq_Suc)
  qed
qed


text \<open>
  C1. A request with a declared base URL (\<open>declaredBase\<close>: the \<open>X-Core-Base\<close> header,
  or the \<open>coreBase\<close> query parameter when the header is empty) is rejected with a status
  in the 4xx range, without reaching either forwarder, when the base does not parse or
  when its hostname is neither \<open>localhost\<close> nor an address that parses to a loopback IP
  (\<open>127.0.0.0/8\<close> or \<open>::1\<close>); with such a hostname it is handed to a forwarder. This
  holds whatever \<open>url.Parse\<close>, \<open>URL.Hostname\<close> and \<open>net.ParseIP\<close> compute.
\<close>

theorem C1_loopback_guard:
  assumes "declaredBase r \<noteq> []"
  shows "(url_Parse lib (declaredBase r) = None \<longrightarrow>
            rejected_client_error (handleCoreProxy lib r)
            \<and> forwarded_to (handleCoreProxy lib r) = None)
       \<and> (\<forall>u. url_Parse lib (declaredBase r) = Some u \<longrightarrow>
            (if url_Hostname lib u = ''localhost''
                \<or> (\<exists>ip. net_ParseIP lib (url_Hostname lib u) = Some ip \<and> spec_loopback_ip ip)
             then forwarded_to (handleCoreProxy lib r) \<noteq> None
             else rejected_client_error (handleCoreProxy lib r)
                  \<and> forwarded_to (handleCoreProxy lib r) = None))"
  using assms
  by (auto simp: handleCoreProxy_def Let_def isLoopbackHost_def IsLoopback_spec
        StatusBadRequest_def StatusForbidden_def split: option.splits)

theorem C1_loopback_guard_witness:
  "declaredBase (example_request ''http://127.0.0.1:20123'') \<noteq> []
   \<and> forwarded_to (handleCoreProxy example_lib (example_request ''http://127.0.0.1:20123'')) \<noteq> None
   \<and> declaredBase (example_request ''http://example.com:1234'') \<noteq> []
   \<and> rejected_client_error (handleCoreProxy example_lib (example_request ''http://example.com:1234''))
   \<and> forwarded_to (handleCoreProxy example_lib (example_request ''http://example.com:1234'')) = None"
proof -
  have d1: "declaredBase (example_request ''http://127.0.0.1:20123'') = ''http://127.0.0.1:20123''"
    by code_simp
  have d2: "declaredBase (example_request ''http://example.com:1234'') = ''http://example.com:1234''"
    by code_simp
  have p1: "url_Parse example_lib ''http://127.0.0.1:20123'' = Some (''http'', ''127.0.0.1:20123'', [], [])"
    by (simp add: example_lib_def)
  have p2: "url_Parse example_lib ''http://example.com:1234'' = Some (''http'', ''example.com:1234'', [], [])"
    by (simp add: example_lib_def)
  have h1: "url_Hostname example_lib (''http'', ''127.0.0.1:20123'', [], []) = ''127.0.0.1''"
    by (simp add: example_lib_def)
  have h2: "url_Hostname example_lib (''http'', ''example.com:1234'', [], []) = ''example.com''"
    by (simp add: example_lib_def)
  have i1: "net_ParseIP example_lib ''127.0.0.1'' = Some [0, 0, 0, 0, 0, 0, 0, 0, 0, 0, 255, 255, 127, 0, 0, 1]"
    by (simp add: example_lib_def)
  have i2: "net_ParseIP example_lib ''example.com'' = None"
    by (simp add: example_lib_def)
  have l: "spec_loopback_ip [0, 0, 0, 0, 0, 0, 0, 0, 0, 0, 255, 255, 127, 0, 0, 1]"
    by (simp add: spec_loopback_ip_def)
  have n1: "declaredBase (example_request ''http://127.0.0.1:20123'') \<noteq> []" by (simp add: d1)
  have n2: "declaredBase (example_request ''http://example.com:1234'') \<noteq> []" by (simp add: d2)
  show ?thesis
    using C1_loopback_guard [OF n1, of example_lib] C1_loopback_guard [OF n2, of example_lib] l
    by (simp add: d1 d2 p1 p2 h1 h2 i1 i2)
qed




section \<open>Theorems: the event bus\<close>

lemma queue_all_others: "c \<notin> set subs \<Longrightarrow> snd (queue_all pick data subs cs) c = cs c"
proof (induction subs arbitrary: cs)
  case Nil
  show ?case by simp
next
  case (Cons x subs)
  then show ?case
    by (cases "queue (pick x) data (cs x)") (auto split: option.splits)
qed

lemma Emit_frame:
  "subscribers (snd (Emit Marshal pick event payload b)) = subscribers b"
  "handlers (snd (Emit Marshal pick event payload b)) = handlers b"
  "nextHandlerID (snd (Emit Marshal pick event payload b)) = nextHandlerID b"
  "calls (snd (Emit Marshal pick event payload b)) = calls b"
  by (simp_all add: Emit_def Let_def split: option.splits prod.splits)

lemma call_cancel_frame:
  "subscribers (call_cancel cf b) = subscribers b"
  "nextHandlerID (call_cancel cf b) = nextHandlerID b"
  "clients (call_cancel cf b) = clients b"
  "calls (call_cancel cf b) = calls b"
  by (cases cf; simp add: Let_def split: option.splits)+

lemma subscribers_apply_op:
  "\<forall>event. subscribers b event \<noteq> Some [] \<Longrightarrow>
   subscribers (apply_op Marshal x b) event \<noteq> Some []"
  by (cases x)
     (auto simp: Subscribe_def Unsubscribe_def removeClient_def Emit_frame On_def Let_def
        set_add_def emitFromClient_def call_cancel_frame
        split: option.splits if_splits)

lemma subscribers_run:
  "\<forall>event. subscribers b event \<noteq> Some [] \<Longrightarrow>
   subscribers (run Marshal ops b) event \<noteq> Some []"
  unfolding run_def
proof (induction ops arbitrary: b event)
  case Nil
  then show ?case by simp
next
  case (Cons x ops)
  have "\<forall>event. subscribers (apply_op Marshal x b) event \<noteq> Some []"
    using Cons.prems subscribers_apply_op by blast
  then show ?case using Cons.IH by simp
qed

text \<open>
  C6. After any history of bus operations from \<open>New\<close> (\<open>Subscribe\<close>, \<open>Unsubscribe\<close>, \<open>Emit\<close>,
  \<open>removeClient\<close>, and also \<open>On\<close>, cancel functions, \<open>emitFromClient\<close> and whatever happens
  to the client objects), no event name is mapped to an empty subscriber set; and when a
  client is the only subscriber left of an event, \<open>Unsubscribe\<close> of it and \<open>removeClient\<close>
  of it each delete the event's entry in that same operation.
\<close>

theorem C6_no_empty_subscriber_set:
  "(\<forall>event. subscribers (run Marshal ops New) event \<noteq> Some [])
   \<and> (\<forall>event client subs.
         subscribers (run Marshal ops New) event = Some subs \<and> set subs = {client} \<longrightarrow>
           subscribers (Unsubscribe event client (run Marshal ops New)) event = None
           \<and> subscribers (removeClient client (run Marshal ops New)) event = None)"
proof (intro conjI allI impI)
  fix event
  have "\<forall>event. subscribers (New :: ('a, 'b) world) event \<noteq> Some []"
    by (simp add: New_def)
  then show "subscribers (run Marshal ops New) event \<noteq> Some []"
    by (rule subscribers_run)
next
  fix event client subs
  assume h: "subscribers (run Marshal ops New) event = Some subs \<and> set subs = {client}"
  then have r: "removeAll client subs = []"
    by (metis Diff_cancel set_empty set_removeAll)
  show "subscribers (Unsubscribe event client (run Marshal ops New)) event = None"
    using h r by (simp add: Unsubscribe_def)
  show "subscribers (removeClient client (run Marshal ops New)) event = None"
    using h r by (simp add: removeClient_def)
qed


theorem C6_no_empty_subscriber_set_witness:
  "subscribers (run (\<lambda>m. None) [OpSubscribe ''log'' 1, OpSubscribe ''log'' 2,
        OpUnsubscribe ''log'' 1 :: (unit, unit) op] New) ''log'' = Some [2]
   \<and> set [2 :: nat] = {2}
   \<and> subscribers (Unsubscribe ''log'' 2 (run (\<lambda>m. None) [OpSubscribe ''log'' 1,
        OpSubscribe ''log'' 2, OpUnsubscribe ''log'' 1 :: (unit, unit) op] New)) ''log'' = None
   \<and> subscribers (removeClient 2 (run (\<lambda>m. None) [OpSubscribe ''log'' 1,
        OpSubscribe ''log'' 2, OpUnsubscribe ''log'' 1 :: (unit, unit) op] New)) ''log'' = None"
proof -
  let ?ops = "[OpSubscribe ''log'' 1, OpSubscribe ''log'' 2, OpUnsubscribe ''log'' 1 :: (unit, unit) op]"
  have s: "subscribers (run (\<lambda>m. None) ?ops New) ''log'' = Some [2]"
    by (simp add: run_def New_def Subscribe_def Unsubscribe_def set_add_def)
  have e: "set [2 :: nat] = {2}" by simp
  from C6_no_empty_subscriber_set [of "\<lambda>m. None" ?ops] s e
  show ?thesis by blast
qed

lemma Emit_Some:
  "Marshal \<lparr>Action = [], Event = event, Payload = payload\<rparr> = Some data \<Longrightarrow>
   Emit Marshal pick event payload b =
     (fst (queue_all pick data (case subscribers b event of None \<Rightarrow> [] | Some subs \<Rightarrow> subs) (clients b)),
      b\<lparr>clients := snd (queue_all pick data
                 (case subscribers b event of None \<Rightarrow> [] | Some subs \<Rightarrow> subs) (clients b))\<rparr>)"
  by (simp add: Emit_def Let_def case_prod_beta)

lemma Emit_None:
  "Marshal \<lparr>Action = [], Event = event, Payload = payload\<rparr> = None \<Longrightarrow>
   Emit Marshal pick event payload b = (None, b)"
  by (simp add: Emit_def)

text \<open>
  C10. \<open>Emit\<close> invokes no handler and leaves both registries as they are: it changes
  nothing but the queues of the subscribers of its event. \<open>emitFromClient\<close> changes no
  client's queue and no registry: it invokes the handlers registered with \<open>On\<close> for its
  event, each once with the payload, and nothing else. So a server-side \<open>Emit\<close> is not
  seen by any \<open>On\<close> handler.
\<close>

theorem C10_disjoint_registries:
  "subscribers (snd (Emit Marshal pick event payload b)) = subscribers b
   \<and> handlers (snd (Emit Marshal pick event payload b)) = handlers b
   \<and> nextHandlerID (snd (Emit Marshal pick event payload b)) = nextHandlerID b
   \<and> calls (snd (Emit Marshal pick event payload b)) = calls b
   \<and> (\<forall>c. c \<notin> set (case subscribers b event of None \<Rightarrow> [] | Some subs \<Rightarrow> subs) \<longrightarrow>
          clients (snd (Emit Marshal pick event payload b)) c = clients b c)
   \<and> clients (emitFromClient event payload b) = clients b
   \<and> subscribers (emitFromClient event payload b) = subscribers b
   \<and> handlers (emitFromClient event payload b) = handlers b
   \<and> nextHandlerID (emitFromClient event payload b) = nextHandlerID b
   \<and> calls (emitFromClient event payload b) =
       calls b @ map (\<lambda>(hid, handler). (handler, payload)) (handlers_of b event)"
proof -
  have "clients (snd (Emit Marshal pick event payload b)) c = clients b c"
    if "c \<notin> set (case subscribers b event of None \<Rightarrow> [] | Some subs \<Rightarrow> subs)" for c
  proof (cases "Marshal \<lparr>Action = [], Event = event, Payload = payload\<rparr>")
    case None
    then show ?thesis by (simp add: Emit_None)
  next
    case (Some data)
    have "snd (queue_all pick data (case subscribers b event of None \<Rightarrow> [] | Some subs \<Rightarrow> subs)
            (clients b)) c = clients b c"
      using that by (rule queue_all_others)
    then show ?thesis
      using Some by (simp add: Emit_Some)
  qed
  then show ?thesis
    by (simp add: Emit_frame emitFromClient_def)
qed

theorem C10_disjoint_registries_witness:
  "calls (snd (Emit (\<lambda>m. Some (Event m)) (\<lambda>c. True) ''tick'' [7 :: nat]
            (fst (On ''tick'' ''h1'' (Subscribe ''tick'' 1 New))))) = []
   \<and> send (clients (snd (Emit (\<lambda>m. Some (Event m)) (\<lambda>c. True) ''tick'' [7 :: nat]
            (fst (On ''tick'' ''h1'' (Subscribe ''tick'' 1 New))))) 1) = [''tick'']
   \<and> 2 \<notin> set [1 :: nat]
   \<and> clients (snd (Emit (\<lambda>m. Some (Event m)) (\<lambda>c. True) ''tick'' [7 :: nat]
            (fst (On ''tick'' ''h1'' (Subscribe ''tick'' 1 New))))) 2 = newClient
   \<and> clients (emitFromClient ''tick'' [7 :: nat]
            (fst (On ''tick'' ''h1'' (Subscribe ''tick'' 1 New)))) = (\<lambda>_. newClient)
   \<and> calls (emitFromClient ''tick'' [7 :: nat]
            (fst (On ''tick'' ''h1'' (Subscribe ''tick'' 1 New)))) = [(''h1'', [7])]"
proof -
  let ?b = "fst (On ''tick'' ''h1'' (Subscribe ''tick'' 1 New)) :: (string, nat) world"
  have b: "?b = \<lparr>subscribers = [''tick'' \<mapsto> [1]], handlers = [''tick'' \<mapsto> [(1, ''h1'')]],
                 nextHandlerID = 1, clients = (\<lambda>_. newClient), calls = []\<rparr>"
    by (simp add: On_def Subscribe_def New_def set_add_def)
  have q: "send (clients (snd (Emit (\<lambda>m. Some (Event m)) (\<lambda>c. True) ''tick'' [7 :: nat] ?b)) 1) = [''tick'']"
    unfolding b by (simp add: Emit_def queue_def newClient_def send_capacity_def)
  have n: "2 \<notin> set [1 :: nat]" by simp
  from C10_disjoint_registries [of "\<lambda>m. Some (Event m)" "\<lambda>c. True" "''tick''" "[7]" ?b] q n
  show ?thesis
    unfolding b by (simp add: handlers_of_def)
qed







lemma queue_open:
  "\<not> closed c \<Longrightarrow> \<not> send_closed c \<Longrightarrow> length (send c) < send_capacity \<Longrightarrow>
   queue pick data c = (None, c\<lparr>send := send c @ [data]\<rparr>)"
  by (simp add: queue_def)

lemma queue_ready:
  "\<not> send_closed c \<Longrightarrow> closed c \<or> length (send c) < send_capacity \<Longrightarrow>
   fst (queue pick data c) = None"
  by (auto simp: queue_def Let_def)

lemma queue_all_ready:
  assumes "distinct subs"
      and "\<forall>c \<in> set subs. \<not> send_closed (cs c) \<and> (closed (cs c) \<or> length (send (cs c)) < send_capacity)"
  shows "fst (queue_all pick data subs cs) = None
         \<and> (\<forall>c \<in> set subs. \<not> closed (cs c) \<longrightarrow>
               snd (queue_all pick data subs cs) c = (cs c)\<lparr>send := send (cs c) @ [data]\<rparr>)"
  using assms
proof (induction subs arbitrary: cs)
  case Nil
  show ?case by simp
next
  case (Cons x subs)
  obtain c' where q: "queue (pick x) data (cs x) = (None, c')"
    using queue_ready [of "cs x" "pick x" data] Cons.prems(2)
    by (cases "queue (pick x) data (cs x)") auto
  have x: "x \<notin> set subs" and d: "distinct subs" using Cons.prems(1) by auto
  have r: "\<forall>c \<in> set subs. \<not> send_closed ((cs(x := c')) c)
             \<and> (closed ((cs(x := c')) c) \<or> length (send ((cs(x := c')) c)) < send_capacity)"
    using Cons.prems(2) x by auto
  note IH = Cons.IH [OF d r]
  have e: "queue_all pick data (x # subs) cs = queue_all pick data subs (cs(x := c'))"
    by (simp add: q)
  have f: "fst (queue_all pick data subs (cs(x := c'))) = None"
    using IH by (rule conjunct1)
  have g: "snd (queue_all pick data subs (cs(x := c'))) c = (cs c)\<lparr>send := send (cs c) @ [data]\<rparr>"
    if "c \<in> set subs" "\<not> closed (cs c)" for c
  proof -
    from that x have n: "c \<noteq> x" by auto
    then have "(cs(x := c')) c = cs c" by simp
    with IH that show ?thesis by (metis)
  qed
  have h: "snd (queue_all pick data subs (cs(x := c'))) x = c'"
    using queue_all_others [OF x, of pick data "cs(x := c')"] by simp
  have k: "\<not> closed (cs x) \<Longrightarrow> c' = (cs x)\<lparr>send := send (cs x) @ [data]\<rparr>"
    using q Cons.prems(2) queue_open [of "cs x" "pick x" data] by auto
  show ?case
    unfolding e using f g h k by auto
qed


lemma distinct_apply_op:
  "\<forall>event subs. subscribers b event = Some subs \<longrightarrow> distinct subs \<Longrightarrow>
   subscribers (apply_op Marshal x b) event = Some subs \<Longrightarrow> distinct subs"
  by (cases x)
     (auto simp: Subscribe_def Unsubscribe_def removeClient_def Emit_frame On_def Let_def
        set_add_def emitFromClient_def call_cancel_frame distinct_removeAll
        split: option.splits if_splits)

lemma distinct_run:
  "\<forall>event subs. subscribers b event = Some subs \<longrightarrow> distinct subs \<Longrightarrow>
   subscribers (run Marshal ops b) event = Some subs \<Longrightarrow> distinct subs"
  unfolding run_def
proof (induction ops arbitrary: b event subs)
  case Nil
  then show ?case by simp
next
  case (Cons x ops)
  have "\<forall>event subs. subscribers (apply_op Marshal x b) event = Some subs \<longrightarrow> distinct subs"
    using Cons.prems(1) distinct_apply_op by blast
  then show ?case using Cons.IH Cons.prems(2) by simp
qed

text \<open>
  C2, as stated, in three bus states where client 1 is subscribed to \<open>tick\<close>. With the
  client's queue full and its connection closed (the state between the two first steps of
  \<open>Client.close\<close>), \<open>Emit\<close> returns and has enqueued nothing. With the queue full and the
  connection open, the call waits and has enqueued nothing. With a payload that
  \<open>json.Marshal\<close> rejects, \<open>Emit\<close> returns at once and has enqueued nothing.
\<close>

theorem C2_emit_delivery_counterexample:
  "subscribers ((Subscribe ''tick'' 1 New)\<lparr>clients := (\<lambda>_. newClient)(1 := stalled True)\<rparr>
       :: (unit, go_value) world) ''tick'' = Some [1]
   \<and> Emit example_Marshal (\<lambda>c. True) ''tick'' [GoInt 7]
        ((Subscribe ''tick'' 1 New)\<lparr>clients := (\<lambda>_. newClient)(1 := stalled True)\<rparr>
           :: (unit, go_value) world)
      = (None, (Subscribe ''tick'' 1 New)\<lparr>clients := (\<lambda>_. newClient)(1 := stalled True)\<rparr>)
   \<and> Emit example_Marshal (\<lambda>c. True) ''tick'' [GoInt 7]
        ((Subscribe ''tick'' 1 New)\<lparr>clients := (\<lambda>_. newClient)(1 := stalled False)\<rparr>
           :: (unit, go_value) world)
      = (Some Blocked, (Subscribe ''tick'' 1 New)\<lparr>clients := (\<lambda>_. newClient)(1 := stalled False)\<rparr>)
   \<and> Emit example_Marshal (\<lambda>c. True) ''tick'' [GoChan]
        (Subscribe ''tick'' 1 New :: (unit, go_value) world)
      = (None, Subscribe ''tick'' 1 New)"
  by (simp add: Emit_def example_Marshal_def Subscribe_def New_def set_add_def queue_def
        stalled_def send_capacity_def newClient_def)

text \<open>
  C2 (amended). Let the bus be in a state reached by any history of operations, with
  connection \<open>C\<close> among the subscribers of \<open>E\<close> and \<open>D\<close> not among them. If
  \<open>json.Marshal\<close> of \<open>{event: E, payload: P}\<close> succeeds with the bytes \<open>data\<close>, \<open>C\<close> is not
  closed, and no subscriber of \<open>E\<close> makes the call wait or panic (each of them is closed
  or has room in its queue, and none has a closed \<open>send\<close> channel), then \<open>Emit(E, P)\<close>
  returns, \<open>C\<close>'s outbound queue has received exactly one message, \<open>data\<close>, at its end, and
  \<open>D\<close> is unchanged.
\<close>

theorem C2_emit_delivery:
  assumes "Marshal \<lparr>Action = [], Event = E, Payload = P\<rparr> = Some data"
      and "b = run Marshal ops New"
      and "subscribers b E = Some subs"
      and "C \<in> set subs"
      and "D \<notin> set subs"
      and "\<not> closed (clients b C)"
      and "\<forall>c \<in> set subs. \<not> send_closed (clients b c)
              \<and> (closed (clients b c) \<or> length (send (clients b c)) < send_capacity)"
  shows "fst (Emit Marshal pick E P b) = None
         \<and> clients (snd (Emit Marshal pick E P b)) C
             = (clients b C)\<lparr>send := send (clients b C) @ [data]\<rparr>
         \<and> clients (snd (Emit Marshal pick E P b)) D = clients b D"
proof -
  have d: "distinct subs"
  proof (rule distinct_run [of New Marshal ops E subs])
    show "\<forall>event subs. subscribers New event = Some subs \<longrightarrow> distinct subs"
      by (simp add: New_def)
    show "subscribers (run Marshal ops New) E = Some subs"
      using assms(2,3) by simp
  qed
  have e: "Emit Marshal pick E P b =
     (fst (queue_all pick data subs (clients b)), b\<lparr>clients := snd (queue_all pick data subs (clients b))\<rparr>)"
    using assms(1,3) by (simp add: Emit_Some)
  from queue_all_ready [OF d assms(7), of pick data] assms(4,6)
  have "fst (queue_all pick data subs (clients b)) = None"
   and "snd (queue_all pick data subs (clients b)) C = (clients b C)\<lparr>send := send (clients b C) @ [data]\<rparr>"
    by auto
  moreover have "snd (queue_all pick data subs (clients b)) D = clients b D"
    using assms(5) by (rule queue_all_others)
  ultimately show ?thesis by (simp add: e)
qed

theorem C2_emit_delivery_witness:
  \<open>example_Marshal \<lparr>Action = [], Event = ''tick'', Payload = [GoInt 7]\<rparr>
      = Some ''{"event":"tick","payload":[7]}''
   \<and> subscribers (run example_Marshal [OpSubscribe ''tick'' 3, OpSubscribe ''tock'' 4 :: (unit, go_value) op] New)
        ''tick'' = Some [3]
   \<and> 3 \<in> set [3 :: nat] \<and> 4 \<notin> set [3 :: nat]
   \<and> fst (Emit example_Marshal (\<lambda>c. True) ''tick'' [GoInt 7]
        (run example_Marshal [OpSubscribe ''tick'' 3, OpSubscribe ''tock'' 4 :: (unit, go_value) op] New)) = None
   \<and> send (clients (snd (Emit example_Marshal (\<lambda>c. True) ''tick'' [GoInt 7]
        (run example_Marshal [OpSubscribe ''tick'' 3, OpSubscribe ''tock'' 4 :: (unit, go_value) op] New))) 3)
       = [''{"event":"tick","payload":[7]}'']
   \<and> send (clients (snd (Emit example_Marshal (\<lambda>c. True) ''tick'' [GoInt 7]
        (run example_Marshal [OpSubscribe ''tick'' 3, OpSubscribe ''tock'' 4 :: (unit, go_value) op] New))) 4)
       = []\<close>
proof -
  let ?ops = "[OpSubscribe ''tick'' 3, OpSubscribe ''tock'' 4 :: (unit, go_value) op]"
  let ?b = "run example_Marshal ?ops New"
  have m: \<open>example_Marshal \<lparr>Action = [], Event = ''tick'', Payload = [GoInt 7]\<rparr>
              = Some ''{"event":"tick","payload":[7]}''\<close>
    by (simp add: example_Marshal_def)
  have b: "?b = \<lparr>subscribers = [''tick'' \<mapsto> [3], ''tock'' \<mapsto> [4]], handlers = Map.empty,
                 nextHandlerID = 0, clients = (\<lambda>_. newClient), calls = []\<rparr>"
    by (simp add: run_def Subscribe_def New_def set_add_def)
  have s: "subscribers ?b ''tick'' = Some [3]"
    by (simp add: b)
  have c1: "3 \<in> set [3 :: nat]" and d2: "4 \<notin> set [3 :: nat]" by simp_all
  have o: "\<not> closed (clients ?b 3)"
    by (simp add: b newClient_def)
  have r: "\<forall>c \<in> set [3 :: nat]. \<not> send_closed (clients ?b c)
              \<and> (closed (clients ?b c) \<or> length (send (clients ?b c)) < send_capacity)"
    by (simp add: b newClient_def send_capacity_def)
  have i: "clients ?b 3 = newClient" "clients ?b 4 = newClient"
    by (simp_all add: b)
  from C2_emit_delivery [OF m refl s c1 d2 o r, of "\<lambda>c. True"] m s
  show ?thesis
    by (simp add: i newClient_def)
qed


lemma of_nat_64_inj:
  "j < 2 ^ 64 \<Longrightarrow> k < 2 ^ 64 \<Longrightarrow> (of_nat j :: 64 word) = of_nat k \<Longrightarrow> j = k"
proof -
  assume j: "j < 2 ^ 64" and k: "k < 2 ^ 64" and e: "(of_nat j :: 64 word) = of_nat k"
  from e have "unat (of_nat j :: 64 word) = unat (of_nat k :: 64 word)" by simp
  then have "j mod 2 ^ 64 = k mod 2 ^ 64" by (simp add: unat_of_nat)
  with j k show "j = k" by simp
qed

lemma update_fresh: "k \<notin> fst ` set al \<Longrightarrow> AList.update k v al = al @ [(k, v)]"
  by (induction al) auto

lemma inv_fresh:
  assumes "handler_ids_inv n X b" and "j \<in> X \<or> n < j" and "j < 2 ^ 64"
      and "handlers b event = Some hs"
  shows "of_nat j \<notin> fst ` set hs"
proof
  assume "of_nat j \<in> fst ` set hs"
  with assms(1,4) obtain k where k: "1 \<le> k" "k \<le> n" "k \<notin> X" "(of_nat j :: 64 word) = of_nat k"
    unfolding handler_ids_inv_def by blast
  from assms(1) have "n < 2 ^ 64" by (simp add: handler_ids_inv_def)
  with k(2) have "k < 2 ^ 64" by simp
  from of_nat_64_inj [OF assms(3) this k(4)] have "j = k" .
  with k assms(2) show False by auto
qed

lemma handlers_frame:
  "handlers (Subscribe event client b) = handlers b"
  "nextHandlerID (Subscribe event client b) = nextHandlerID b"
  "handlers (Unsubscribe event client b) = handlers b"
  "nextHandlerID (Unsubscribe event client b) = nextHandlerID b"
  "handlers (removeClient client b) = handlers b"
  "nextHandlerID (removeClient client b) = nextHandlerID b"
  "handlers (emitFromClient event payload b) = handlers b"
  "nextHandlerID (emitFromClient event payload b) = nextHandlerID b"
  by (simp_all add: Subscribe_def Unsubscribe_def removeClient_def emitFromClient_def Let_def
        split: option.splits)

lemma inv_On:
  assumes "handler_ids_inv n X b" and "\<forall>x \<in> X. x \<le> n" and "Suc n < 2 ^ 64"
  shows "handler_ids_inv (Suc n) X (fst (On event handler b))"
  unfolding handler_ids_inv_def
proof (intro conjI allI impI)
  show "Suc n < 2 ^ 64" by (rule assms(3))
  show "nextHandlerID (fst (On event handler b)) = of_nat (Suc n)"
    using assms(1) by (simp add: On_def Let_def handler_ids_inv_def)
next
  fix e hs
  assume h: "handlers (fst (On event handler b)) e = Some hs"
  have sn: "Suc n \<notin> X" using assms(2) by auto
  show "hs \<noteq> []"
    using h assms(1) by (auto simp: On_def Let_def handler_ids_inv_def split: if_splits)
  show "\<forall>hid \<in> fst ` set hs. \<exists>j. 1 \<le> j \<and> j \<le> Suc n \<and> j \<notin> X \<and> hid = of_nat j"
  proof
    fix hid assume m: "hid \<in> fst ` set hs"
    show "\<exists>j. 1 \<le> j \<and> j \<le> Suc n \<and> j \<notin> X \<and> hid = of_nat j"
    proof (cases "e = event")
      case False
      with h have "handlers b e = Some hs" by (simp add: On_def Let_def)
      with assms(1) m obtain j where "1 \<le> j" "j \<le> n" "j \<notin> X" "hid = of_nat j"
        unfolding handler_ids_inv_def by blast
      then show ?thesis by (intro exI [of _ j]) simp
    next
      case True
      let ?old = "case handlers b event of None \<Rightarrow> [] | Some hs \<Rightarrow> hs"
      from h True have hs: "hs = AList.update (nextHandlerID b + 1) handler ?old"
        by (simp add: On_def Let_def)
      from m have "hid = nextHandlerID b + 1 \<or> hid \<in> fst ` set ?old"
        unfolding hs by (simp add: dom_update)
      then show ?thesis
      proof
        assume "hid = nextHandlerID b + 1"
        then have "hid = of_nat (Suc n)" using assms(1) by (simp add: handler_ids_inv_def)
        with sn show ?thesis by (intro exI [of _ "Suc n"]) simp
      next
        assume o: "hid \<in> fst ` set ?old"
        then obtain hs0 where "handlers b event = Some hs0" "hid \<in> fst ` set hs0"
          by (cases "handlers b event") auto
        with assms(1) obtain j where "1 \<le> j" "j \<le> n" "j \<notin> X" "hid = of_nat j"
          unfolding handler_ids_inv_def by blast
        then show ?thesis by (intro exI [of _ j]) simp
      qed
    qed
  qed
qed

lemma inv_cancel:
  assumes "handler_ids_inv n X b"
  shows "handler_ids_inv n X (call_cancel cf b)"
proof (cases cf)
  case (CancelFunc event hid)
  show ?thesis
  proof (cases "handlers b event")
    case None
    with assms show ?thesis by (simp add: CancelFunc)
  next
    case (Some hs)
    let ?hs' = "AList.delete hid hs"
    have sub: "fst ` set ?hs' \<subseteq> fst ` set hs"
      by (rule dom_delete_subset)
    have old: "\<forall>k \<in> fst ` set hs. \<exists>j. 1 \<le> j \<and> j \<le> n \<and> j \<notin> X \<and> k = of_nat j"
      using assms Some unfolding handler_ids_inv_def by blast
    show ?thesis
    proof (cases "?hs' = []")
      case True
      then have c: "call_cancel cf b = b\<lparr>handlers := (handlers b)(event := None)\<rparr>"
        by (simp add: CancelFunc Some)
      show ?thesis
        using assms unfolding c handler_ids_inv_def by (simp split: if_splits)
    next
      case False
      then have c: "call_cancel cf b = b\<lparr>handlers := (handlers b)(event \<mapsto> ?hs')\<rparr>"
        by (simp add: CancelFunc Some)
      have new: "\<forall>k \<in> fst ` set ?hs'. \<exists>j. 1 \<le> j \<and> j \<le> n \<and> j \<notin> X \<and> k = of_nat j"
        using old sub by blast
      show ?thesis
        unfolding c handler_ids_inv_def
      proof (intro conjI allI impI)
        show "n < 2 ^ 64" using assms by (simp add: handler_ids_inv_def)
        show "nextHandlerID (b\<lparr>handlers := (handlers b)(event \<mapsto> ?hs')\<rparr>) = of_nat n"
          using assms by (simp add: handler_ids_inv_def)
      next
        fix e hs2
        assume h: "handlers (b\<lparr>handlers := (handlers b)(event \<mapsto> ?hs')\<rparr>) e = Some hs2"
        show "hs2 \<noteq> []"
        proof (cases "e = event")
          case True with h False show ?thesis by simp
        next
          case False
          with h have "handlers b e = Some hs2" by simp
          with assms show ?thesis unfolding handler_ids_inv_def by blast
        qed
        show "\<forall>k \<in> fst ` set hs2. \<exists>j. 1 \<le> j \<and> j \<le> n \<and> j \<notin> X \<and> k = of_nat j"
        proof (cases "e = event")
          case True with h new show ?thesis by simp
        next
          case False
          with h have "handlers b e = Some hs2" by simp
          with assms show ?thesis unfolding handler_ids_inv_def by blast
        qed
      qed
    qed
  qed
qed

lemma handler_ids_inv_frame:
  "handler_ids_inv n X b \<Longrightarrow> handlers b' = handlers b \<Longrightarrow>
   nextHandlerID b' = nextHandlerID b \<Longrightarrow> handler_ids_inv n X b'"
  by (simp add: handler_ids_inv_def)

lemma inv_apply_op:
  assumes "handler_ids_inv n X b" and "\<forall>x \<in> X. x \<le> n" and "n + count_On [x] < 2 ^ 64"
  shows "handler_ids_inv (n + count_On [x]) X (apply_op Marshal x b)"
proof (cases x)
  case (OpOn event handler)
  then have c: "n + count_On [x] = Suc n" by (simp add: count_On_def)
  with assms(3) have "Suc n < 2 ^ 64" by simp
  with assms(1,2) have "handler_ids_inv (Suc n) X (fst (On event handler b))"
    by (rule inv_On)
  then show ?thesis by (simp add: OpOn count_On_def)
next
  case (OpCancel cf)
  then show ?thesis using inv_cancel [OF assms(1), of cf] by (simp add: count_On_def)
next
  case (OpSubscribe event client)
  have "handler_ids_inv n X (Subscribe event client b)"
    using assms(1) by (rule handler_ids_inv_frame) (simp_all add: handlers_frame)
  then show ?thesis by (simp add: OpSubscribe count_On_def)
next
  case (OpUnsubscribe event client)
  have "handler_ids_inv n X (Unsubscribe event client b)"
    using assms(1) by (rule handler_ids_inv_frame) (simp_all add: handlers_frame)
  then show ?thesis by (simp add: OpUnsubscribe count_On_def)
next
  case (OpRemoveClient client)
  have "handler_ids_inv n X (removeClient client b)"
    using assms(1) by (rule handler_ids_inv_frame) (simp_all add: handlers_frame)
  then show ?thesis by (simp add: OpRemoveClient count_On_def)
next
  case (OpEmit pick event payload)
  have "handler_ids_inv n X (snd (Emit Marshal pick event payload b))"
    using assms(1) by (rule handler_ids_inv_frame) (simp_all add: Emit_frame)
  then show ?thesis by (simp add: OpEmit count_On_def)
next
  case (OpEmitFromClient event payload)
  have "handler_ids_inv n X (emitFromClient event payload b)"
    using assms(1) by (rule handler_ids_inv_frame) (simp_all add: handlers_frame)
  then show ?thesis by (simp add: OpEmitFromClient count_On_def)
next
  case (OpClients cs)
  have "handler_ids_inv n X (b\<lparr>clients := cs\<rparr>)"
    using assms(1) by (rule handler_ids_inv_frame) (simp_all add: handlers_frame)
  then show ?thesis by (simp add: OpClients count_On_def)
qed

lemma inv_run:
  "handler_ids_inv n X b \<Longrightarrow> \<forall>x \<in> X. x \<le> n \<Longrightarrow> n + count_On ops < 2 ^ 64 \<Longrightarrow>
   handler_ids_inv (n + count_On ops) X (run Marshal ops b)"
proof (induction ops arbitrary: n b)
  case Nil
  then show ?case by (simp add: run_def count_On_def)
next
  case (Cons x ops)
  let ?n = "n + count_On [x]"
  have c: "count_On (x # ops) = count_On [x] + count_On ops"
    by (simp add: count_On_def)
  have lt: "?n + count_On ops < 2 ^ 64"
    using Cons.prems(3) unfolding c by (simp only: add.assoc)
  then have lt1: "?n < 2 ^ 64" by (rule add_lessD1)
  have i: "handler_ids_inv ?n X (apply_op Marshal x b)"
    using Cons.prems(1,2) lt1 by (rule inv_apply_op)
  have x: "\<forall>x \<in> X. x \<le> ?n" using Cons.prems(2) by auto
  have r: "run Marshal (x # ops) b = run Marshal ops (apply_op Marshal x b)"
    by (simp add: run_def)
  from Cons.IH [OF i x lt]
  show ?case unfolding r c by (simp only: add.assoc)
qed

lemma inv_New: "handler_ids_inv 0 {} New"
  by (simp add: handler_ids_inv_def New_def)

lemma call_cancel_noop:
  assumes "handler_ids_inv n X b" and "j \<in> X" and "j < 2 ^ 64"
  shows "call_cancel (CancelFunc event (of_nat j)) b = b"
proof (cases "handlers b event")
  case None
  then show ?thesis by simp
next
  case (Some hs)
  have f: "of_nat j \<notin> fst ` set hs"
    using assms(1) _ assms(3) Some by (rule inv_fresh) (simp add: assms(2))
  have ne: "hs \<noteq> []" using assms(1) Some unfolding handler_ids_inv_def by blast
  have "(handlers b)(event \<mapsto> hs) = handlers b"
    using Some by (rule map_upd_triv)
  then show ?thesis
    using Some f ne by simp
qed

lemma On_fresh:
  assumes "hid = nextHandlerID b + 1" and "hid \<notin> fst ` set (handlers_of b event)"
  shows "On event handler b =
           (b\<lparr>nextHandlerID := hid,
              handlers := (handlers b)(event \<mapsto> handlers_of b event @ [(hid, handler)])\<rparr>,
            CancelFunc event hid)"
proof -
  have h: "(case handlers b event of None \<Rightarrow> [] | Some hs \<Rightarrow> hs) = handlers_of b event"
    by (simp add: handlers_of_def)
  show ?thesis
    by (simp only: On_def Let_def h assms(1) [symmetric] update_fresh [OF assms(2)])
qed

lemma inv_fresh_of:
  assumes "handler_ids_inv n X b" and "j \<in> X \<or> n < j" and "j < 2 ^ 64"
  shows "of_nat j \<notin> fst ` set (handlers_of b event)"
proof (cases "handlers b event")
  case None
  then show ?thesis by (simp add: handlers_of_def)
next
  case (Some hs)
  have "of_nat j \<notin> fst ` set hs"
    using assms Some by (rule inv_fresh)
  then show ?thesis by (simp add: handlers_of_def Some)
qed

text \<open>
  C7. Take any history of bus operations from \<open>New\<close>, then \<open>On(E, H1)\<close>, \<open>On(E, H2)\<close> and a
  call of the cancel function returned for \<open>H1\<close>, then any further history; the whole with
  fewer than \<open>2^64\<close> registrations, so that the 64-bit counter \<open>nextHandlerID\<close> has not
  wrapped around. After the cancellation the handlers of \<open>E\<close> are those registered before,
  followed by \<open>H2\<close> under the id it was given, and the handlers of every other event are
  untouched: the cancellation removed the registration of \<open>H1\<close> and nothing else. A
  client-emitted event for \<open>E\<close> then invokes the earlier handlers and \<open>H2\<close>, once each with
  the payload, and makes no call for the registration of \<open>H1\<close>. Calling the same cancel
  function again changes nothing, neither at once nor after the further history, whatever
  handlers that history has registered: the id of \<open>H1\<close> is not issued again.
\<close>

theorem C7_cancel_exact:
  assumes "count_On ops0 + 2 + count_On ops1 < 2 ^ 64"
      and "s0 = run Marshal ops0 New"
      and "On E H1 s0 = (s1, cancel1)"
      and "On E H2 s1 = (s2, cancel2)"
      and "s3 = call_cancel cancel1 s2"
      and "s4 = run Marshal ops1 s3"
  shows "handlers_of s3 E = handlers_of s0 E @ [(nextHandlerID s2, H2)]
         \<and> (\<forall>event. event \<noteq> E \<longrightarrow> handlers_of s3 event = handlers_of s0 event)
         \<and> calls (emitFromClient E P s3) =
             calls s0 @ map (\<lambda>(hid, handler). (handler, P)) (handlers_of s0 E) @ [(H2, P)]
         \<and> call_cancel cancel1 s3 = s3
         \<and> call_cancel cancel1 s4 = s4"
proof -
  let ?n = "count_On ops0"
  define id1 :: handler_id where "id1 = of_nat (Suc ?n)"
  define id2 :: handler_id where "id2 = of_nat (Suc (Suc ?n))"
  let ?hs0 = "handlers_of s0 E"
  have b0: "0 + ?n < 2 ^ 64" and b1: "Suc ?n < 2 ^ 64" and b2: "Suc (Suc ?n) < 2 ^ 64"
    using assms(1) by simp_all
  have "handler_ids_inv (0 + ?n) {} (run Marshal ops0 New)"
    using inv_New _ b0 by (rule inv_run) simp
  then have i0: "handler_ids_inv ?n {} s0"
    by (simp add: assms(2))
  have n0: "nextHandlerID s0 = of_nat ?n"
    using i0 by (simp add: handler_ids_inv_def)
  have f0: "id1 \<notin> fst ` set ?hs0"
    unfolding id1_def using i0 _ b1 by (rule inv_fresh_of) simp
  have g0: "id2 \<notin> fst ` set ?hs0"
    unfolding id2_def using i0 _ b2 by (rule inv_fresh_of) simp
  have ne: "id2 \<noteq> id1"
    unfolding id1_def id2_def using of_nat_64_inj [OF b2 b1] by auto
  have a1: "id1 = nextHandlerID s0 + 1"
    by (simp add: id1_def n0)
  from On_fresh [OF a1 f0, of H1] assms(3)
  have e1: "s1 = s0\<lparr>nextHandlerID := id1, handlers := (handlers s0)(E \<mapsto> ?hs0 @ [(id1, H1)])\<rparr>"
   and c1: "cancel1 = CancelFunc E id1"
    by simp_all
  have h1: "handlers_of s1 E = ?hs0 @ [(id1, H1)]"
    by (simp add: e1 handlers_of_def)
  have a2: "id2 = nextHandlerID s1 + 1"
    by (simp add: e1 id1_def id2_def)
  have g1: "id2 \<notin> fst ` set (handlers_of s1 E)"
    unfolding h1 using g0 ne by auto
  from On_fresh [OF a2 g1, of H2] assms(4)
  have e2: "s2 = s1\<lparr>nextHandlerID := id2,
                     handlers := (handlers s1)(E \<mapsto> ?hs0 @ [(id1, H1), (id2, H2)])\<rparr>"
    by (simp add: h1)
  have n2: "nextHandlerID s2 = id2" by (simp add: e2)
  have d: "AList.delete id1 (?hs0 @ [(id1, H1), (id2, H2)]) = ?hs0 @ [(id2, H2)]"
    using ne delete_id [OF f0] by (simp add: AList.delete_eq)
  have e3: "s3 = s0\<lparr>nextHandlerID := id2, handlers := (handlers s0)(E \<mapsto> ?hs0 @ [(id2, H2)])\<rparr>"
    unfolding assms(5) c1 by (simp add: e2 e1 d)
  have A: "handlers_of s3 E = ?hs0 @ [(nextHandlerID s2, H2)]"
    by (simp add: e3 n2 handlers_of_def)
  have B: "\<forall>event. event \<noteq> E \<longrightarrow> handlers_of s3 event = handlers_of s0 event"
    by (simp add: e3 handlers_of_def)
  have C: "calls (emitFromClient E P s3) =
             calls s0 @ map (\<lambda>(hid, handler). (handler, P)) ?hs0 @ [(H2, P)]"
    unfolding emitFromClient_def A by (simp add: e3)
  have i3: "handler_ids_inv (Suc (Suc ?n)) {Suc ?n} s3"
    unfolding handler_ids_inv_def
  proof (intro conjI allI impI)
    show "Suc (Suc ?n) < 2 ^ 64" by (rule b2)
    show "nextHandlerID s3 = of_nat (Suc (Suc ?n))" by (simp add: e3 id2_def)
  next
    fix event hs
    assume h: "handlers s3 event = Some hs"
    have old: "\<exists>j. 1 \<le> j \<and> j \<le> Suc (Suc ?n) \<and> j \<notin> {Suc ?n} \<and> hid = of_nat j"
      if "handlers s0 ev = Some hs'" "hid \<in> fst ` set hs'" for ev hs' and hid :: handler_id
    proof -
      from i0 that obtain j where "1 \<le> j" "j \<le> ?n" "hid = of_nat j"
        unfolding handler_ids_inv_def by blast
      then show ?thesis by (intro exI [of _ j]) simp
    qed
    show "hs \<noteq> []"
    proof (cases "event = E")
      case True with h show ?thesis by (auto simp: e3)
    next
      case False
      with h have "handlers s0 event = Some hs" by (simp add: e3)
      with i0 show ?thesis unfolding handler_ids_inv_def by blast
    qed
    show "\<forall>hid \<in> fst ` set hs. \<exists>j. 1 \<le> j \<and> j \<le> Suc (Suc ?n) \<and> j \<notin> {Suc ?n} \<and> hid = of_nat j"
    proof
      fix hid assume m: "hid \<in> fst ` set hs"
      show "\<exists>j. 1 \<le> j \<and> j \<le> Suc (Suc ?n) \<and> j \<notin> {Suc ?n} \<and> hid = of_nat j"
      proof (cases "event = E")
        case False
        with h have "handlers s0 event = Some hs" by (simp add: e3)
        then show ?thesis using m by (rule old)
      next
        case True
        with h have hs: "hs = ?hs0 @ [(id2, H2)]" by (simp add: e3)
        from m have "hid = id2 \<or> hid \<in> fst ` set ?hs0" unfolding hs by auto
        then show ?thesis
        proof
          assume "hid = id2"
          then have "hid = of_nat (Suc (Suc ?n))" by (simp only: id2_def)
          then show ?thesis by (intro exI [of _ "Suc (Suc ?n)"]) simp
        next
          assume o: "hid \<in> fst ` set ?hs0"
          then obtain hs' where "handlers s0 E = Some hs'" "hid \<in> fst ` set hs'"
            by (cases "handlers s0 E") (auto simp: handlers_of_def)
          then show ?thesis by (rule old)
        qed
      qed
    qed
  qed
  have D: "call_cancel cancel1 s3 = s3"
    unfolding c1 id1_def using i3 _ b1 by (rule call_cancel_noop) simp
  have b4: "Suc (Suc ?n) + count_On ops1 < 2 ^ 64"
    using assms(1) by simp
  have i4: "handler_ids_inv (Suc (Suc ?n) + count_On ops1) {Suc ?n} s4"
    unfolding assms(6) using i3 _ b4 by (rule inv_run) simp
  have F: "call_cancel cancel1 s4 = s4"
    unfolding c1 id1_def using i4 _ b1 by (rule call_cancel_noop) simp
  from A B C D F show ?thesis by blast
qed

theorem C7_cancel_exact_witness:
  "count_On ([] :: (string, go_value) op list) + 2
       + count_On [OpOn ''job'' ''h3'' :: (string, go_value) op] < 2 ^ 64
   \<and> snd (On ''job'' ''h1'' (New :: (string, go_value) world)) = CancelFunc ''job'' 1
   \<and> handlers_of (call_cancel (CancelFunc ''job'' 1)
         (fst (On ''job'' ''h2'' (fst (On ''job'' ''h1'' (New :: (string, go_value) world))))))
         ''job'' = [(2, ''h2'')]
   \<and> calls (emitFromClient ''job'' [GoInt 7] (call_cancel (CancelFunc ''job'' 1)
         (fst (On ''job'' ''h2'' (fst (On ''job'' ''h1'' (New :: (string, go_value) world)))))))
       = [(''h2'', [GoInt 7])]
   \<and> call_cancel (CancelFunc ''job'' 1)
         (run example_Marshal [OpOn ''job'' ''h3''] (call_cancel (CancelFunc ''job'' 1)
           (fst (On ''job'' ''h2'' (fst (On ''job'' ''h1'' (New :: (string, go_value) world)))))))
       = run example_Marshal [OpOn ''job'' ''h3''] (call_cancel (CancelFunc ''job'' 1)
           (fst (On ''job'' ''h2'' (fst (On ''job'' ''h1'' (New :: (string, go_value) world))))))"
proof -
  let ?s0 = "New :: (string, go_value) world"
  let ?s1 = "fst (On ''job'' ''h1'' ?s0)"
  let ?s2 = "fst (On ''job'' ''h2'' ?s1)"
  let ?s3 = "call_cancel (CancelFunc ''job'' 1) ?s2"
  let ?ops1 = "[OpOn ''job'' ''h3'' :: (string, go_value) op]"
  have c: "count_On ([] :: (string, go_value) op list) + 2 + count_On ?ops1 < 2 ^ 64"
    by (simp add: count_On_def)
  have r0: "?s0 = run example_Marshal [] New"
    by (simp add: run_def)
  have k1: "snd (On ''job'' ''h1'' ?s0) = CancelFunc ''job'' 1"
    by (simp add: On_def New_def Let_def)
  have o1: "On ''job'' ''h1'' ?s0 = (?s1, CancelFunc ''job'' 1)"
    using k1 by (simp add: prod_eq_iff)
  have o2: "On ''job'' ''h2'' ?s1 = (?s2, snd (On ''job'' ''h2'' ?s1))"
    by simp
  have n2: "nextHandlerID ?s2 = 2"
    by (simp add: On_def New_def Let_def)
  have h0: "handlers_of ?s0 ''job'' = []" and c0: "calls ?s0 = []"
    by (simp_all add: handlers_of_def New_def)
  from C7_cancel_exact [OF c r0 o1 o2 refl refl, of "[GoInt 7]"] c k1
  show ?thesis
    by (simp only: n2 h0 c0 append_Nil list.map simp_thms)
qed


section \<open>Theorems: the browser-side multiplexer\<close>















end
